theory Spec2Isabelle
  imports Complex_Main "HOL-Library.Word" "HOL-Library.Log_Nat"
begin

unbundle bit_operations_syntax

section \<open>JavaScript numbers and operators used by ipUtils\<close>

text \<open>
  Every number that ipUtils handles on the inputs considered here is an integer far
  below \<open>2 ^ 53\<close>, where IEEE doubles are exact, so a JavaScript number is an \<open>int\<close>.
  The only results that can be fractional are the two \<open>Math.pow(2, k)\<close> with a possibly
  negative \<open>k\<close> (\<open>totalHosts\<close> and \<open>actualSubnetCount\<close>); they are \<open>rat\<close>.
  \<open>NaN\<close>, which only \<open>parseInt\<close> produces, is \<open>None\<close>.

  The bitwise operators convert their operands to 32 bits (ToInt32 / ToUint32), work on
  the bits, and read the result back signed (\<open>|\<close>, \<open>&\<close>, \<open>~\<close>, \<open><<\<close>) or unsigned
  (\<open>>>>\<close>). The shift count is taken modulo 32.
\<close>

type_synonym number = int

definition ToInt32 :: "number option \<Rightarrow> number" where
  "ToInt32 v = (case v of None \<Rightarrow> 0 | Some x \<Rightarrow> sint (word_of_int x :: 32 word))"

definition js_shl :: "number \<Rightarrow> number \<Rightarrow> number" where
  "js_shl a n = sint (push_bit (nat (n mod 32)) (word_of_int a :: 32 word))"

definition js_ushr :: "number \<Rightarrow> number \<Rightarrow> number" where
  "js_ushr a n = uint (drop_bit (nat (n mod 32)) (word_of_int a :: 32 word))"

definition js_or :: "number \<Rightarrow> number \<Rightarrow> number" where
  "js_or a b = sint ((word_of_int a :: 32 word) OR word_of_int b)"

definition js_and :: "number \<Rightarrow> number \<Rightarrow> number" where
  "js_and a b = sint ((word_of_int a :: 32 word) AND word_of_int b)"

definition js_not :: "number \<Rightarrow> number" where
  "js_not a = sint (NOT (word_of_int a :: 32 word))"

text \<open>
  \<open>Math.pow(2, k)\<close> for an integer \<open>k\<close>. A double holds it exactly for
  \<open>-1074 \<le> k \<le> 1023\<close>, and \<open>Math.pow(2, k) - 2\<close> exactly for \<open>k \<le> 54\<close>: the numbers of
  \<open>calculateIPInfo\<close> (\<open>totalHosts\<close>, \<open>usableHosts\<close>, \<open>hostBits\<close>, \<open>subnetBits\<close>) are those of
  the source for every prefix from \<open>-22\<close> to \<open>1106\<close>. Outside that range the doubles round,
  overflow or underflow, and the model does not follow them.
\<close>

definition pow2 :: "int \<Rightarrow> rat" where
  "pow2 k = (if 0 \<le> k then 2 ^ nat k else 1 / 2 ^ nat (- k))"

text \<open>
  \<open>Math.ceil(Math.log2(n))\<close> for an integer \<open>n \<ge> 1\<close>: the least \<open>k\<close> with \<open>n \<le> 2 ^ k\<close>,
  taking \<open>Math.log2\<close> to be exact on the powers of two (elsewhere its rounding error is
  far below the distance of the logarithm to the next integer, for every \<open>n\<close> up to
  \<open>2 ^ 30\<close>, beyond which \<open>newCidr\<close> is clamped anyway). For \<open>n \<le> 0\<close> the source gets
  \<open>-Infinity\<close> or \<open>NaN\<close>; \<open>generateSubnets\<close> treats that case before calling this
  function.
\<close>

function ceil_log2 :: "int \<Rightarrow> int" where
  "ceil_log2 n = (if n \<le> 1 then 0 else 1 + ceil_log2 ((n + 1) div 2))"
  by pat_completeness auto
termination
  by (relation "measure nat") auto

declare ceil_log2.simps [simp del]

section \<open>Strings: split, join, parseInt, Number.prototype.toString\<close>

text \<open>\<open>s.split(c)\<close> for a one-character separator: never empty, \<open>''''.split(c) = ['''']\<close>.\<close>

fun split :: "char \<Rightarrow> string \<Rightarrow> string list" where
  "split sep [] = [[]]"
| "split sep (c # cs) =
     (if c = sep then [] # split sep cs
      else (case split sep cs of p # ps \<Rightarrow> (c # p) # ps | [] \<Rightarrow> [[c]]))"

text \<open>\<open>parts[i]\<close>: \<open>undefined\<close> (here \<open>None\<close>) beyond the end of the array.\<close>

definition index :: "'a list \<Rightarrow> nat \<Rightarrow> 'a option" where
  "index xs i = (if i < length xs then Some (xs ! i) else None)"

fun join :: "string \<Rightarrow> string list \<Rightarrow> string" where
  "join sep [] = []"
| "join sep [x] = x"
| "join sep (x # y # ys) = x @ sep @ join sep (y # ys)"

text \<open>Characters are compared by their code (\<open>charCodeAt\<close>).\<close>

definition charCode :: "char \<Rightarrow> nat" where
  "charCode c = of_char c"

definition inRange :: "char \<Rightarrow> char \<Rightarrow> char \<Rightarrow> bool" where
  "inRange lo hi c = (charCode lo \<le> charCode c \<and> charCode c \<le> charCode hi)"

definition isDigit :: "char \<Rightarrow> bool" where
  "isDigit c = inRange CHR ''0'' CHR ''9'' c"

definition digitValue :: "char \<Rightarrow> nat" where
  "digitValue c = charCode c - charCode CHR ''0''"

definition digitChar :: "nat \<Rightarrow> char" where
  "digitChar d = char_of (charCode CHR ''0'' + d)"

text \<open>White space that \<open>parseInt\<close> skips, among the characters below 256.\<close>

definition isWhiteSpace :: "char \<Rightarrow> bool" where
  "isWhiteSpace c = (charCode c \<in> {9, 10, 11, 12, 13, 32, 160})"

definition digitsValue :: "string \<Rightarrow> nat" where
  "digitsValue ds = foldl (\<lambda>a c. 10 * a + digitValue c) 0 ds"

text \<open>
  \<open>parseInt(s, 10)\<close>: skip white space, read a sign, read the longest run of decimal
  digits; \<open>NaN\<close> when there is none. \<open>parseInt(undefined, 10)\<close> reads the text
  ``undefined'' and is \<open>NaN\<close>. (Exact as long as the digits denote a value below
  \<open>2 ^ 53\<close>.)
\<close>

definition parseInt :: "string option \<Rightarrow> number option" where
  "parseInt v = (case v of
       None \<Rightarrow> None
     | Some s \<Rightarrow>
        (let t = dropWhile isWhiteSpace s;
             neg = (t \<noteq> [] \<and> hd t = CHR ''-'');
             u = (if t \<noteq> [] \<and> (hd t = CHR ''-'' \<or> hd t = CHR ''+'') then tl t else t);
             ds = takeWhile isDigit u
         in if ds = [] then None
            else Some (if neg then - int (digitsValue ds) else int (digitsValue ds))))"

text \<open>\<open>n.toString(radix)\<close> for an integer \<open>n\<close>, radix 2 or 10.\<close>

function natToString :: "nat \<Rightarrow> nat \<Rightarrow> string" where
  "natToString radix n =
     (if radix < 2 \<or> n < radix then [digitChar n]
      else natToString radix (n div radix) @ [digitChar (n mod radix)])"
  by pat_completeness auto
termination
  by (relation "measure snd") auto

declare natToString.simps [simp del]

definition toString :: "nat \<Rightarrow> number \<Rightarrow> string" where
  "toString radix n = (if n < 0 then CHR ''-'' # natToString radix (nat (- n))
                       else natToString radix (nat n))"

definition padStart :: "nat \<Rightarrow> char \<Rightarrow> string \<Rightarrow> string" where
  "padStart w c s = replicate (w - length s) c @ s"

section \<open>The regular expression of isValidIP\<close>

text \<open>
  The pattern uses literals, character classes, sequence, alternation and \<open>?\<close>, between
  \<open>^\<close> and \<open>$\<close> (no flags, so they match only at the two ends of the text).
  \<open>rmatch r s\<close> lists, in the order a backtracking matcher tries them, the rests of \<open>s\<close>
  after each way of matching \<open>r\<close> at its start; \<open>test\<close> succeeds when one way consumes
  the whole text.
\<close>

datatype regex =
    Lit char
  | Range char char
  | Seq regex regex
  | Alt regex regex
  | Opt regex

fun rmatch :: "regex \<Rightarrow> string \<Rightarrow> string list" where
  "rmatch (Lit c) s = (case s of [] \<Rightarrow> [] | x # xs \<Rightarrow> if x = c then [xs] else [])"
| "rmatch (Range lo hi) s =
     (case s of [] \<Rightarrow> [] | x # xs \<Rightarrow> if inRange lo hi x then [xs] else [])"
| "rmatch (Seq a b) s = concat (map (rmatch b) (rmatch a s))"
| "rmatch (Alt a b) s = rmatch a s @ rmatch b s"
| "rmatch (Opt a) s = rmatch a s @ [s]"

definition test :: "regex \<Rightarrow> string \<Rightarrow> bool" where
  "test r s = ([] \<in> set (rmatch r s))"

text \<open>\<open>(25[0-5]|2[0-4][0-9]|[01]?[0-9][0-9]?)\<close>\<close>

definition octetPattern :: regex where
  "octetPattern =
     Alt (Seq (Lit CHR ''2'') (Seq (Lit CHR ''5'') (Range CHR ''0'' CHR ''5'')))
    (Alt (Seq (Lit CHR ''2'') (Seq (Range CHR ''0'' CHR ''4'') (Range CHR ''0'' CHR ''9'')))
         (Seq (Opt (Range CHR ''0'' CHR ''1''))
              (Seq (Range CHR ''0'' CHR ''9'') (Opt (Range CHR ''0'' CHR ''9'')))))"

definition pattern :: regex where
  "pattern =
     Seq octetPattern (Seq (Lit CHR ''.'')
    (Seq octetPattern (Seq (Lit CHR ''.'')
    (Seq octetPattern (Seq (Lit CHR ''.'') octetPattern)))))"

section \<open>ipUtils: conversions\<close>

definition isValidIP :: "string \<Rightarrow> bool" where
  "isValidIP ip = test pattern ip"

definition ipToInt :: "string \<Rightarrow> number" where
  "ipToInt ip =
     (let parts = split CHR ''.'' ip
      in js_ushr
           (js_or (js_or (js_or (js_shl (ToInt32 (parseInt (index parts 0))) 24)
                                (js_shl (ToInt32 (parseInt (index parts 1))) 16))
                         (js_shl (ToInt32 (parseInt (index parts 2))) 8))
                  (ToInt32 (parseInt (index parts 3))))
           0)"

definition intToIp :: "number \<Rightarrow> string" where
  "intToIp i =
     join ''.'' (map (toString 10)
       [js_and (js_ushr i 24) 255,
        js_and (js_ushr i 16) 255,
        js_and (js_ushr i 8) 255,
        js_and i 255])"

definition cidrToSubnetMask :: "number \<Rightarrow> string" where
  "cidrToSubnetMask cidr =
     (let maskInt = js_ushr (js_not (js_ushr 0xffffffff cidr)) 0 in intToIp maskInt)"

text \<open>The counting loop of \<open>subnetMaskToCidr\<close>, from \<open>i\<close> with the count so far.\<close>

function countBits :: "number \<Rightarrow> number \<Rightarrow> number \<Rightarrow> number" where
  "countBits maskInt i count =
     (if i < 32
      then countBits maskInt (i + 1)
             (if js_and maskInt (js_shl 1 (31 - i)) \<noteq> 0 then count + 1 else count)
      else count)"
  by pat_completeness auto
termination
  by (relation "measure (\<lambda>(maskInt, i, count). nat (32 - i))") auto

declare countBits.simps [simp del]

definition subnetMaskToCidr :: "string \<Rightarrow> number" where
  "subnetMaskToCidr subnetMask = (let maskInt = ipToInt subnetMask in countBits maskInt 0 0)"

text \<open>\<open>num.toString(2).padStart(padding, '0')\<close>; \<open>NaN.toString(2)\<close> is the text ``NaN''.\<close>

definition toBinary :: "number option \<Rightarrow> nat \<Rightarrow> string" where
  "toBinary num padding =
     padStart padding CHR ''0'' (case num of None \<Rightarrow> ''NaN'' | Some n \<Rightarrow> toString 2 n)"

definition ipToBinary :: "string \<Rightarrow> string" where
  "ipToBinary ip =
     join '' '' (map (\<lambda>octet. toBinary (parseInt (Some octet)) 8) (split CHR ''.'' ip))"

section \<open>ipUtils: derived network facts\<close>

definition calculateNetworkAddress :: "string \<Rightarrow> string \<Rightarrow> string" where
  "calculateNetworkAddress ip subnetMask =
     (let ipInt = ipToInt ip;
          maskInt = ipToInt subnetMask;
          networkInt = js_and ipInt maskInt
      in intToIp networkInt)"

definition calculateBroadcastAddress :: "string \<Rightarrow> string \<Rightarrow> string" where
  "calculateBroadcastAddress ip subnetMask =
     (let ipInt = ipToInt ip;
          maskInt = ipToInt subnetMask;
          networkInt = js_and ipInt maskInt;
          invertedMaskInt = js_ushr (js_not maskInt) 0;
          broadcastInt = js_or networkInt invertedMaskInt
      in intToIp broadcastInt)"

definition calculateFirstHost :: "string \<Rightarrow> string" where
  "calculateFirstHost networkAddress =
     (let networkInt = ipToInt networkAddress in intToIp (networkInt + 1))"

definition calculateLastHost :: "string \<Rightarrow> string" where
  "calculateLastHost broadcastAddress =
     (let broadcastInt = ipToInt broadcastAddress in intToIp (broadcastInt - 1))"

definition calculateWildcardMask :: "string \<Rightarrow> string" where
  "calculateWildcardMask subnetMask =
     (let maskInt = ipToInt subnetMask;
          wildcardInt = js_ushr (js_not maskInt) 0
      in intToIp wildcardInt)"

record IPResult =
  networkAddress :: string
  broadcastAddress :: string
  firstValidHost :: string
  lastValidHost :: string
  totalHosts :: rat
  usableHosts :: rat
  cidr :: number
  subnetMask :: string
  binarySubnetMask :: string
  binaryIpAddress :: string
  binaryNetworkAddress :: string
  wildcardMask :: string
  subnetBits :: number
  hostBits :: number

text \<open>The field \<open>id\<close> of the source is \<open>id'\<close> here.\<close>

record Subnet =
  id' :: number
  networkAddress :: string
  broadcastAddress :: string
  firstHost :: string
  lastHost :: string
  cidr :: number
  usableHosts :: number

text \<open>
  The failure kinds that the specification names. ipUtils has no \<open>throw\<close>, and none of
  the built-ins it calls (\<open>split\<close>, \<open>parseInt\<close>, the bit operators, \<open>Math.pow\<close>,
  \<open>Math.log2\<close>, \<open>join\<close>, \<open>toString\<close>, \<open>padStart\<close>, \<open>push\<close>) throws on any argument,
  so the two entry points below return \<open>Inr\<close> on every path.

  The prefix is an integer, as every caller passes it. \<open>32 - cidr\<close>, \<open>Math.pow\<close> and
  \<open>totalHosts - 2\<close> are computed here on \<open>int\<close> and \<open>rat\<close>; the source computes them in
  doubles, with the same values for every prefix from \<open>-22\<close> to \<open>1106\<close>.
\<close>

datatype error = InvalidAddress | InvalidPrefix | InvalidSubnetCount

definition calculateIPInfo :: "string \<Rightarrow> number \<Rightarrow> error + IPResult" where
  "calculateIPInfo = (\<lambda>ip cidr.
     let subnetMask = cidrToSubnetMask cidr;
         networkAddress = calculateNetworkAddress ip subnetMask;
         broadcastAddress = calculateBroadcastAddress ip subnetMask;
         firstValidHost = calculateFirstHost networkAddress;
         lastValidHost = calculateLastHost broadcastAddress;
         totalHosts = pow2 (32 - cidr);
         usableHosts = (if totalHosts > 2 then totalHosts - 2 else 0);
         binarySubnetMask = ipToBinary subnetMask;
         binaryIpAddress = ipToBinary ip;
         binaryNetworkAddress = ipToBinary networkAddress;
         wildcardMask = calculateWildcardMask subnetMask
     in Inr \<lparr> IPResult.networkAddress = networkAddress,
              IPResult.broadcastAddress = broadcastAddress,
              firstValidHost = firstValidHost,
              lastValidHost = lastValidHost,
              totalHosts = totalHosts,
              IPResult.usableHosts = usableHosts,
              IPResult.cidr = cidr,
              subnetMask = subnetMask,
              binarySubnetMask = binarySubnetMask,
              binaryIpAddress = binaryIpAddress,
              binaryNetworkAddress = binaryNetworkAddress,
              wildcardMask = wildcardMask,
              subnetBits = cidr - (if cidr \<le> 8 then 0 else if cidr \<le> 16 then 8
                                   else if cidr \<le> 24 then 16 else 24),
              hostBits = 32 - cidr \<rparr>)"

section \<open>ipUtils: the subnet partitioner\<close>

text \<open>The \<open>for\<close> loop of \<open>generateSubnets\<close>, from index \<open>i\<close>; every pass pushes one subnet.\<close>

function subnetsFrom ::
  "number \<Rightarrow> number \<Rightarrow> number \<Rightarrow> rat \<Rightarrow> number \<Rightarrow> number \<Rightarrow> Subnet list" where
  "subnetsFrom networkInt newCidr subnetSize actualSubnetCount subnetCount i =
     (if of_int i < actualSubnetCount \<and> i < subnetCount
      then (let subnetStartInt = networkInt + i * subnetSize;
                subnetStart = intToIp subnetStartInt;
                subnetEnd = intToIp (subnetStartInt + subnetSize - 1)
            in \<lparr> id' = i + 1,
                 networkAddress = subnetStart,
                 broadcastAddress = subnetEnd,
                 firstHost = intToIp (subnetStartInt + 1),
                 lastHost = intToIp (subnetStartInt + subnetSize - 2),
                 cidr = newCidr,
                 usableHosts = subnetSize - 2 \<rparr>)
           # subnetsFrom networkInt newCidr subnetSize actualSubnetCount subnetCount (i + 1)
      else [])"
  by pat_completeness auto
termination
  by (relation "measure (\<lambda>(networkInt, newCidr, subnetSize, actualSubnetCount, subnetCount, i).
        nat (subnetCount - i))") auto

declare subnetsFrom.simps [simp del]

text \<open>
  For \<open>subnetCount \<le> 0\<close>, \<open>Math.log2\<close> is \<open>-Infinity\<close> (at 0) or \<open>NaN\<close> (below):
  \<open>actualSubnetCount\<close> is then \<open>0\<close> or \<open>NaN\<close>, the loop test \<open>i < actualSubnetCount\<close> is
  false at once and the empty array is returned. For \<open>subnetCount \<ge> 1\<close>, \<open>newCidr\<close> is at
  most 30, so \<open>subnetSize = Math.pow(2, 32 - newCidr)\<close> is a whole number.
\<close>

definition generateSubnets :: "string \<Rightarrow> number \<Rightarrow> number \<Rightarrow> error + Subnet list" where
  "generateSubnets = (\<lambda>ip cidr subnetCount.
     if subnetCount \<le> 0 then Inr []
     else
      (let bitsNeeded = ceil_log2 subnetCount;
           newCidr = min (cidr + bitsNeeded) 30;
           subnetMask = cidrToSubnetMask cidr;
           networkAddress = calculateNetworkAddress ip subnetMask;
           networkInt = ipToInt networkAddress;
           subnetSize = 2 ^ nat (32 - newCidr);
           actualSubnetCount = pow2 (newCidr - cidr)
       in Inr (subnetsFrom networkInt newCidr subnetSize actualSubnetCount subnetCount 0)))"

section \<open>Notions used to state the properties\<close>

text \<open>
  The first and last host of a result, read back as unsigned 32-bit integers, and the
  statement that the first lies above the last.
\<close>

definition hostRange :: "error + IPResult \<Rightarrow> (number \<times> number) option" where
  "hostRange res = (case res of
       Inl e \<Rightarrow> None
     | Inr r \<Rightarrow> Some (ipToInt (firstValidHost r), ipToInt (lastValidHost r)))"

definition reversedHostRange :: "string \<Rightarrow> number \<Rightarrow> bool" where
  "reversedHostRange A P = (case hostRange (calculateIPInfo A P) of
       None \<Rightarrow> False
     | Some (f, l) \<Rightarrow> f > l)"

text \<open>
  The prefix that \<open>generateSubnets\<close> gives to the children, and the network number of
  the parent that it starts from.
\<close>

definition newCidrOf :: "number \<Rightarrow> number \<Rightarrow> number" where
  "newCidrOf P n = min (P + ceil_log2 n) 30"

definition baseNetwork :: "string \<Rightarrow> number \<Rightarrow> number" where
  "baseNetwork ip P = ipToInt (calculateNetworkAddress ip (cidrToSubnetMask P))"

text \<open>Octet \<open>k / 8\<close> of a number taken as 32 bits (\<open>k\<close> is the bit offset).\<close>

definition octet :: "number \<Rightarrow> nat \<Rightarrow> number" where
  "octet n k = uint (take_bit 8 (drop_bit k (word_of_int n :: 32 word)))"

text \<open>
  An octet text is canonical when it has no superfluous leading zero; an address text is
  canonical when each of its dot-separated parts is.
\<close>

definition noLeadingZero :: "string \<Rightarrow> bool" where
  "noLeadingZero p = (p = ''0'' \<or> (p \<noteq> [] \<and> hd p \<noteq> CHR ''0''))"

definition canonical :: "string \<Rightarrow> bool" where
  "canonical A = list_all noLeadingZero (split CHR ''.'' A)"

section \<open>Auxiliary facts\<close>

subsection \<open>Bits\<close>

lemma and_255_word: "(w :: 32 word) AND 255 = take_bit 8 w"
  by (simp add: take_bit_eq_mask mask_numeral)

lemma sint_eq_uint_small:
  fixes w :: "32 word"
  assumes "uint w < 2 ^ 31"
  shows "sint w = uint w"
proof -
  have "(- (2 ^ 31) :: int) \<le> 0" by simp
  also have "0 \<le> uint w" by simp
  finally have "- (2 ^ 31) \<le> uint w" .
  with assms show ?thesis
    unfolding sint_uint by (intro signed_take_bit_int_eq_self) simp_all
qed

lemma uint_take_bit_8_less: "uint (take_bit 8 (w :: 32 word)) < 256"
  using take_bit_int_less_exp [of 8 "uint w"] by (simp add: unsigned_take_bit_eq)

lemma js_and_255: "js_and a 255 = uint (take_bit 8 (word_of_int a :: 32 word))"
proof -
  have "uint (take_bit 8 (word_of_int a :: 32 word)) < 2 ^ 31"
    using uint_take_bit_8_less [of "word_of_int a"] by simp
  then show ?thesis
    by (simp add: js_and_def and_255_word sint_eq_uint_small)
qed

lemma recombine_word:
  "push_bit 24 (take_bit 8 (drop_bit 24 w)) OR push_bit 16 (take_bit 8 (drop_bit 16 w)) OR
   push_bit 8 (take_bit 8 (drop_bit 8 w)) OR take_bit 8 w = (w :: 32 word)"
proof (rule bit_word_eqI)
  fix n assume "n < LENGTH(32)"
  consider "n < 8" | "8 \<le> n" "n < 16" | "16 \<le> n" "n < 24" | "24 \<le> n"
    by linarith
  then show "bit (push_bit 24 (take_bit 8 (drop_bit 24 w)) OR push_bit 16 (take_bit 8 (drop_bit 16 w)) OR
   push_bit 8 (take_bit 8 (drop_bit 8 w)) OR take_bit 8 w) n = bit w n"
    using \<open>n < LENGTH(32)\<close> by cases (auto simp: bit_simps)
qed

lemma extract_word:
  fixes a b c d :: "32 word"
  assumes "take_bit 8 a = a" "take_bit 8 b = b" "take_bit 8 c = c" "take_bit 8 d = d"
  defines "X \<equiv> push_bit 24 a OR push_bit 16 b OR push_bit 8 c OR d"
  shows "take_bit 8 (drop_bit 24 X) = a" "take_bit 8 (drop_bit 16 X) = b"
        "take_bit 8 (drop_bit 8 X) = c" "take_bit 8 X = d"
proof -
  have ba: "bit a n \<Longrightarrow> n < 8" for n using assms(1) by (metis bit_take_bit_iff)
  have bb: "bit b n \<Longrightarrow> n < 8" for n using assms(2) by (metis bit_take_bit_iff)
  have bc: "bit c n \<Longrightarrow> n < 8" for n using assms(3) by (metis bit_take_bit_iff)
  have bd: "bit d n \<Longrightarrow> n < 8" for n using assms(4) by (metis bit_take_bit_iff)
  show "take_bit 8 (drop_bit 24 X) = a"
    unfolding X_def by (rule bit_word_eqI) (auto simp: bit_simps dest: ba bb bc bd)
  show "take_bit 8 (drop_bit 16 X) = b"
    unfolding X_def by (rule bit_word_eqI) (auto simp: bit_simps dest: ba bb bc bd)
  show "take_bit 8 (drop_bit 8 X) = c"
    unfolding X_def by (rule bit_word_eqI) (auto simp: bit_simps dest: ba bb bc bd)
  show "take_bit 8 X = d"
    unfolding X_def by (rule bit_word_eqI) (auto simp: bit_simps dest: ba bb bc bd)
qed

subsection \<open>Digits\<close>

lemma charCode_digitChar: "d < 10 \<Longrightarrow> charCode (digitChar d) = 48 + d"
  by (simp add: charCode_def digitChar_def)

lemma isDigit_digitChar: "d < 10 \<Longrightarrow> isDigit (digitChar d)"
  by (simp add: isDigit_def inRange_def charCode_digitChar) (simp add: charCode_def)

lemma digitValue_digitChar: "d < 10 \<Longrightarrow> digitValue (digitChar d) = d"
  by (simp add: digitValue_def charCode_digitChar) (simp add: charCode_def)

lemma isDigit_iff: "isDigit c \<longleftrightarrow> 48 \<le> charCode c \<and> charCode c \<le> 57"
  by (simp add: isDigit_def inRange_def) (simp add: charCode_def)

lemma isDigit_not_space: "isDigit c \<Longrightarrow> \<not> isWhiteSpace c"
  by (auto simp: isDigit_iff isWhiteSpace_def)

lemma isDigit_not_sign: "isDigit c \<Longrightarrow> c \<noteq> CHR ''-'' \<and> c \<noteq> CHR ''+'' \<and> c \<noteq> CHR ''.''"
  by (auto simp: isDigit_iff charCode_def)

lemma digitsValue_snoc: "digitsValue (ds @ [c]) = 10 * digitsValue ds + digitValue c"
  by (simp add: digitsValue_def)

lemma natToString_digits: "list_all isDigit (natToString 10 n)"
  by (induction "10 :: nat" n rule: natToString.induct)
     (subst natToString.simps, simp add: isDigit_digitChar)

lemma natToString_nonempty: "natToString r n \<noteq> []"
  by (subst natToString.simps) simp

lemma natToString_value: "digitsValue (natToString 10 n) = n"
proof (induction "10 :: nat" n rule: natToString.induct)
  case (1 n)
  show ?case
  proof (cases "n < 10")
    case True
    then show ?thesis
      by (subst natToString.simps) (simp add: digitsValue_def digitValue_digitChar)
  next
    case False
    with 1 have "digitsValue (natToString 10 (n div 10)) = n div 10" by simp
    with False show ?thesis
      by (subst natToString.simps) (simp add: digitsValue_snoc digitValue_digitChar)
  qed
qed

lemma parseInt_digits:
  assumes "ds \<noteq> []" "list_all isDigit ds"
  shows "parseInt (Some ds) = Some (int (digitsValue ds))"
proof -
  from assms obtain c cs where ds: "ds = c # cs" by (cases ds) auto
  with assms have c: "isDigit c" by simp
  have dw: "dropWhile isWhiteSpace ds = ds"
    using c ds by (simp add: isDigit_not_space)
  have tw: "takeWhile isDigit ds = ds"
    using assms(2) by (simp add: takeWhile_eq_all_conv list_all_iff)
  have hd: "hd ds \<noteq> CHR ''-''" "hd ds \<noteq> CHR ''+''"
    using isDigit_not_sign [OF c] ds by simp_all
  show ?thesis
    using assms(1) by (simp add: parseInt_def dw Let_def hd tw)
qed

lemma parseInt_natToString: "parseInt (Some (natToString 10 n)) = Some (int n)"
  by (simp add: parseInt_digits natToString_nonempty natToString_digits natToString_value)

subsection \<open>split and join\<close>

lemma split_nonempty: "split sep s \<noteq> []"
  by (induction s) (auto split: list.splits)

lemma split_no_sep: "sep \<notin> set a \<Longrightarrow> split sep a = [a]"
  by (induction a) auto

lemma split_append: "sep \<notin> set a \<Longrightarrow> split sep (a @ sep # r) = a # split sep r"
  by (induction a) auto

lemma digits_no_dot: "list_all isDigit ds \<Longrightarrow> CHR ''.'' \<notin> set ds"
  using isDigit_not_sign by (auto simp: list_all_iff)

lemma split_four:
  assumes "CHR ''.'' \<notin> set a" "CHR ''.'' \<notin> set b" "CHR ''.'' \<notin> set c" "CHR ''.'' \<notin> set d"
  shows "split CHR ''.'' (a @ ''.'' @ b @ ''.'' @ c @ ''.'' @ d) = [a, b, c, d]"
  using assms by (simp add: split_append split_no_sep)

subsection \<open>Text to number and back\<close>

lemma octet_nonneg: "0 \<le> octet n k"
  by (simp add: octet_def)

lemma octet_less: "octet n k < 256"
  unfolding octet_def by (rule uint_take_bit_8_less)

lemma word_of_octet: "(word_of_int (octet n k) :: 32 word) = take_bit 8 (drop_bit k (word_of_int n))"
  by (simp add: octet_def)

lemma octet_arith: "octet n k = n mod 2 ^ 32 div 2 ^ k mod 256"
proof -
  have "octet n k = take_bit 8 (drop_bit k (take_bit 32 (take_bit 32 n)))"
    unfolding octet_def
    by (simp only: unsigned_take_bit_eq unsigned_drop_bit_eq uint_word_of_int_eq) simp
  then show ?thesis
    by (simp only: take_bit_eq_mod drop_bit_eq_div) simp
qed

lemma js_octet: "0 \<le> k \<Longrightarrow> k < 32 \<Longrightarrow> js_and (js_ushr n k) 255 = octet n (nat k)"
  by (simp add: js_and_255 js_ushr_def octet_def)

lemma js_octet_0: "js_and n 255 = octet n 0"
  by (simp add: js_and_255 octet_def)

lemma toString_nonneg: "0 \<le> n \<Longrightarrow> toString r n = natToString r (nat n)"
  by (simp add: toString_def)

lemma intToIp_text:
  "intToIp n =
     natToString 10 (nat (octet n 24)) @ ''.'' @ natToString 10 (nat (octet n 16)) @ ''.'' @
     natToString 10 (nat (octet n 8)) @ ''.'' @ natToString 10 (nat (octet n 0))"
proof -
  have "js_and (js_ushr n 24) 255 = octet n 24" "js_and (js_ushr n 16) 255 = octet n 16"
       "js_and (js_ushr n 8) 255 = octet n 8"
    using js_octet [of 24 n] js_octet [of 16 n] js_octet [of 8 n] by simp_all
  then show ?thesis
    by (simp add: intToIp_def js_octet_0 toString_nonneg octet_nonneg)
qed

lemma ipToInt_parts:
  assumes "split CHR ''.'' A = [a, b, c, d]"
    and "parseInt (Some a) = Some oa" and "parseInt (Some b) = Some ob"
    and "parseInt (Some c) = Some oc" and "parseInt (Some d) = Some od"
  shows "ipToInt A =
     uint (push_bit 24 (word_of_int oa) OR push_bit 16 (word_of_int ob) OR
           push_bit 8 (word_of_int oc) OR word_of_int od :: 32 word)"
  using assms
  by (simp add: ipToInt_def index_def ToInt32_def js_ushr_def js_or_def js_shl_def or.assoc)

lemma ipToInt_intToIp_word: "ipToInt (intToIp n) = uint (word_of_int n :: 32 word)"
proof -
  let ?W = "word_of_int n :: 32 word"
  let ?s = "\<lambda>k. natToString 10 (nat (octet n k))"
  have sp: "split CHR ''.'' (intToIp n) = [?s 24, ?s 16, ?s 8, ?s 0]"
    unfolding intToIp_text
    by (rule split_four) (simp_all add: digits_no_dot natToString_digits)
  have pa: "parseInt (Some (?s k)) = Some (octet n k)" for k
    by (simp add: parseInt_natToString octet_nonneg)
  show ?thesis
    unfolding ipToInt_parts [OF sp pa pa pa pa] word_of_octet
    using recombine_word [of ?W] by simp
qed

lemma ipToInt_intToIp: "ipToInt (intToIp n) = n mod 2 ^ 32"
  by (simp add: ipToInt_intToIp_word uint_word_of_int)

lemma ipToInt_range: "0 \<le> ipToInt A \<and> ipToInt A < 2 ^ 32"
  using uint_lt2p [where 'a = 32] by (simp add: ipToInt_def js_ushr_def Let_def)

lemma pack_arith:
  fixes V :: int
  assumes "0 \<le> V" "V < 4294967296"
  shows "V = (V div 16777216 mod 256) * 16777216 + (V div 65536 mod 256) * 65536 +
             (V div 256 mod 256) * 256 + V mod 256"
proof -
  have 1: "V mod (16777216 * 256) = 16777216 * (V div 16777216 mod 256) + V mod 16777216"
    by (rule zmod_zmult2_eq) simp
  have 2: "V mod (65536 * 256) = 65536 * (V div 65536 mod 256) + V mod 65536"
    by (rule zmod_zmult2_eq) simp
  have 3: "V mod (256 * 256) = 256 * (V div 256 mod 256) + V mod 256"
    by (rule zmod_zmult2_eq) simp
  have m: "V mod 4294967296 = V"
    using assms by (rule mod_pos_pos_trivial)
  have e: "(16777216 * 256 :: int) = 4294967296" "(65536 * 256 :: int) = 16777216"
    "(256 * 256 :: int) = 65536" by simp_all
  from 1 2 3 m show ?thesis
    unfolding e by linarith
qed

lemma octets_of_uint32:
  assumes "0 \<le> V" "V < 4294967296"
  shows "octet V 24 = V div 16777216 mod 256" "octet V 16 = V div 65536 mod 256"
        "octet V 8 = V div 256 mod 256" "octet V 0 = V mod 256"
proof -
  have m: "V mod 2 ^ 32 = V"
    using assms by (intro mod_pos_pos_trivial) simp_all
  show "octet V 24 = V div 16777216 mod 256" "octet V 16 = V div 65536 mod 256"
        "octet V 8 = V div 256 mod 256" "octet V 0 = V mod 256"
    unfolding octet_arith m by simp_all
qed


subsection \<open>The partitioner\<close>


lemma generateSubnets_eq:
  "0 < n \<Longrightarrow> generateSubnets ip P n =
     Inr (subnetsFrom (baseNetwork ip P) (newCidrOf P n) (2 ^ nat (32 - newCidrOf P n))
            (pow2 (newCidrOf P n - P)) n 0)"
  by (simp add: generateSubnets_def Let_def newCidrOf_def baseNetwork_def)

lemma generateSubnets_nonpos: "n \<le> 0 \<Longrightarrow> generateSubnets ip P n = Inr []"
  by (simp add: generateSubnets_def)

subsection \<open>Network, broadcast and host range as words\<close>

lemma word_ipToInt_intToIp: "(word_of_int (ipToInt (intToIp n)) :: 32 word) = word_of_int n"
  by (simp add: ipToInt_intToIp_word)

lemma network_word:
  "ipToInt (calculateNetworkAddress A M) =
     uint ((word_of_int (ipToInt A) :: 32 word) AND word_of_int (ipToInt M))"
  by (simp add: calculateNetworkAddress_def Let_def ipToInt_intToIp_word js_and_def)

lemma broadcast_word:
  "ipToInt (calculateBroadcastAddress A M) =
     uint (((word_of_int (ipToInt A) :: 32 word) AND word_of_int (ipToInt M))
           OR NOT (word_of_int (ipToInt M)))"
  by (simp add: calculateBroadcastAddress_def Let_def ipToInt_intToIp_word js_and_def
        js_or_def js_not_def js_ushr_def)

lemma firstHost_word:
  "ipToInt (calculateFirstHost N) = uint ((word_of_int (ipToInt N) :: 32 word) + 1)"
  by (simp add: calculateFirstHost_def Let_def ipToInt_intToIp_word)

lemma lastHost_word:
  "ipToInt (calculateLastHost B) = uint ((word_of_int (ipToInt B) :: 32 word) - 1)"
  by (simp add: calculateLastHost_def Let_def ipToInt_intToIp_word)

lemma hostRange_eq:
  "hostRange (calculateIPInfo A P) =
     Some (ipToInt (calculateFirstHost (calculateNetworkAddress A (cidrToSubnetMask P))),
           ipToInt (calculateLastHost (calculateBroadcastAddress A (cidrToSubnetMask P))))"
  by (simp add: hostRange_def calculateIPInfo_def Let_def)

lemma even_word_succ:
  fixes y :: "32 word"
  assumes "even y"
  shows "uint (y + 1) = uint y + 1"
proof -
  have "even (uint y)" using assms bit_uint_iff [of y 0] by (simp add: bit_0)
  moreover have "uint y < 2 ^ 32" using uint_lt2p [of y] by simp
  ultimately have "uint y + uint (1 :: 32 word) < 2 ^ LENGTH(32)"
    by (simp add: uint_1) presburger
  then have "uint (y + 1) = uint y + uint (1 :: 32 word)"
    by (rule uint_add_lem [THEN iffD1])
  then show ?thesis by simp
qed

text \<open>At prefix 32 the host range is the same for every address.\<close>

lemma hostRange_prefix_32:
  "hostRange (calculateIPInfo A 32) = Some (1, 4294967294)"
proof -
  have m: "cidrToSubnetMask 32 = ''0.0.0.0''" by code_simp
  have z: "ipToInt ''0.0.0.0'' = 0" by code_simp
  have f: "ipToInt (calculateFirstHost (calculateNetworkAddress A ''0.0.0.0'')) = 1"
    unfolding firstHost_word network_word z by simp
  have l: "ipToInt (calculateLastHost (calculateBroadcastAddress A ''0.0.0.0'')) = 4294967294"
    unfolding lastHost_word broadcast_word z by simp
  show ?thesis
    unfolding hostRange_eq m f l by simp
qed

text \<open>At prefix 31 the first host is the broadcast address and the last host the network address.\<close>

lemma reversedHostRange_prefix_31: "reversedHostRange A 31"
proof -
  let ?Y = "(word_of_int (ipToInt A) :: 32 word) AND - 2"
  have m: "cidrToSubnetMask 31 = ''255.255.255.254''" by code_simp
  have mi: "ipToInt ''255.255.255.254'' = 4294967294" by code_simp
  have mw: "(word_of_int 4294967294 :: 32 word) = - 2" by simp
  have ev: "even ?Y" by (simp add: even_and_iff)
  have nm: "NOT (- 2 :: 32 word) = 1" by simp
  have or1: "?Y OR 1 = ?Y + 1" using ev by (simp add: or_one_eq)
  have f: "ipToInt (calculateFirstHost (calculateNetworkAddress A ''255.255.255.254'')) =
             uint ?Y + 1"
    unfolding firstHost_word network_word mi mw using even_word_succ [OF ev] by simp
  have l: "ipToInt (calculateLastHost (calculateBroadcastAddress A ''255.255.255.254'')) =
             uint ?Y"
    unfolding lastHost_word broadcast_word mi mw nm by (simp add: or1)
  show ?thesis
    unfolding reversedHostRange_def hostRange_eq m f l by simp
qed

subsection \<open>What the pattern accepts\<close>

lemma digitsValue_simps:
  "digitsValue [a] = digitValue a"
  "digitsValue [a, b] = 10 * digitValue a + digitValue b"
  "digitsValue [a, b, c] = 10 * (10 * digitValue a + digitValue b) + digitValue c"
  by (simp_all add: digitsValue_def)

lemma inRange_digit:
  "inRange CHR ''0'' CHR ''9'' c \<longleftrightarrow> isDigit c"
  "inRange CHR ''0'' CHR ''5'' c \<Longrightarrow> isDigit c \<and> digitValue c \<le> 5"
  "inRange CHR ''0'' CHR ''4'' c \<Longrightarrow> isDigit c \<and> digitValue c \<le> 4"
  "inRange CHR ''0'' CHR ''1'' c \<Longrightarrow> isDigit c \<and> digitValue c \<le> 1"
  "isDigit c \<Longrightarrow> digitValue c \<le> 9"
  "isDigit CHR ''2''" "isDigit CHR ''5''" "digitValue CHR ''2'' = 2" "digitValue CHR ''5'' = 5"
  by (auto simp: isDigit_def inRange_def digitValue_def charCode_def)

lemma inRange_01_09: "inRange CHR ''0'' CHR ''1'' c \<Longrightarrow> inRange CHR ''0'' CHR ''9'' c"
  by (simp add: inRange_def charCode_def)

lemma rmatch_Seq_iff:
  "t \<in> set (rmatch (Seq a b) s) \<longleftrightarrow> (\<exists>u. u \<in> set (rmatch a s) \<and> t \<in> set (rmatch b u))"
  by auto

lemma rmatch_octet:
  assumes "t \<in> set (rmatch octetPattern s)"
  shows "\<exists>p. s = p @ t \<and> p \<noteq> [] \<and> list_all isDigit p \<and> digitsValue p < 256"
proof -
  from assms consider
      (a) x where "s = CHR ''2'' # CHR ''5'' # x # t" "inRange CHR ''0'' CHR ''5'' x"
    | (b) x y where "s = CHR ''2'' # x # y # t" "inRange CHR ''0'' CHR ''4'' x"
          "inRange CHR ''0'' CHR ''9'' y"
    | (c) x y z where "s = x # y # z # t" "inRange CHR ''0'' CHR ''1'' x"
          "inRange CHR ''0'' CHR ''9'' y" "inRange CHR ''0'' CHR ''9'' z"
    | (d) x y where "s = x # y # t" "inRange CHR ''0'' CHR ''9'' x" "inRange CHR ''0'' CHR ''9'' y"
    | (e) x where "s = x # t" "inRange CHR ''0'' CHR ''9'' x"
    by (auto simp: octetPattern_def inRange_01_09 split: list.splits if_splits)
  then show ?thesis
  proof cases
    case a
    from a(2) have "isDigit x \<and> digitValue x \<le> 5" by (rule inRange_digit(2))
    with a(1) have "s = [CHR ''2'', CHR ''5'', x] @ t \<and> list_all isDigit [CHR ''2'', CHR ''5'', x]
        \<and> digitsValue [CHR ''2'', CHR ''5'', x] < 256"
      by (simp add: digitsValue_simps inRange_digit)
    then show ?thesis by blast
  next
    case b
    from b(2) have "isDigit x \<and> digitValue x \<le> 4" by (rule inRange_digit(3))
    moreover from b(3) have "isDigit y \<and> digitValue y \<le> 9" by (simp add: inRange_digit)
    ultimately have "s = [CHR ''2'', x, y] @ t \<and> list_all isDigit [CHR ''2'', x, y]
        \<and> digitsValue [CHR ''2'', x, y] < 256"
      using b(1) by (simp add: digitsValue_simps inRange_digit)
    then show ?thesis by blast
  next
    case c
    from c(2) have "isDigit x \<and> digitValue x \<le> 1" by (rule inRange_digit(4))
    moreover from c(3) have "isDigit y \<and> digitValue y \<le> 9" by (simp add: inRange_digit)
    moreover from c(4) have "isDigit z \<and> digitValue z \<le> 9" by (simp add: inRange_digit)
    ultimately have "s = [x, y, z] @ t \<and> list_all isDigit [x, y, z]
        \<and> digitsValue [x, y, z] < 256"
      using c(1) by (simp add: digitsValue_simps)
    then show ?thesis by blast
  next
    case d
    from d(2) have "isDigit x \<and> digitValue x \<le> 9" by (simp add: inRange_digit)
    moreover from d(3) have "isDigit y \<and> digitValue y \<le> 9" by (simp add: inRange_digit)
    ultimately have "s = [x, y] @ t \<and> list_all isDigit [x, y] \<and> digitsValue [x, y] < 256"
      using d(1) by (simp add: digitsValue_simps)
    then show ?thesis by blast
  next
    case e
    from e(2) have "isDigit x \<and> digitValue x \<le> 9" by (simp add: inRange_digit)
    with e(1) have "s = [x] @ t \<and> list_all isDigit [x] \<and> digitsValue [x] < 256"
      by (simp add: digitsValue_simps)
    then show ?thesis by blast
  qed
qed

lemma rmatch_dot: "t \<in> set (rmatch (Lit CHR ''.'') s) \<Longrightarrow> s = ''.'' @ t"
  by (auto split: list.splits if_splits)

lemma isValidIP_parts:
  assumes "isValidIP A"
  shows "\<exists>a b c d. A = a @ ''.'' @ b @ ''.'' @ c @ ''.'' @ d \<and>
      (\<forall>p \<in> {a, b, c, d}. p \<noteq> [] \<and> list_all isDigit p \<and> digitsValue p < 256)"
proof -
  from assms obtain t1 t2 t3 t4 t5 t6 where
    "t1 \<in> set (rmatch octetPattern A)" "t2 \<in> set (rmatch (Lit CHR ''.'') t1)"
    "t3 \<in> set (rmatch octetPattern t2)" "t4 \<in> set (rmatch (Lit CHR ''.'') t3)"
    "t5 \<in> set (rmatch octetPattern t4)" "t6 \<in> set (rmatch (Lit CHR ''.'') t5)"
    "[] \<in> set (rmatch octetPattern t6)"
    unfolding isValidIP_def test_def pattern_def rmatch_Seq_iff
    by blast
  note t = this
  obtain a where a: "A = a @ t1" "a \<noteq> []" "list_all isDigit a" "digitsValue a < 256"
    using rmatch_octet [OF t(1)] by blast
  obtain b where b: "t2 = b @ t3" "b \<noteq> []" "list_all isDigit b" "digitsValue b < 256"
    using rmatch_octet [OF t(3)] by blast
  obtain c where c: "t4 = c @ t5" "c \<noteq> []" "list_all isDigit c" "digitsValue c < 256"
    using rmatch_octet [OF t(5)] by blast
  obtain d where d: "t6 = d @ []" "d \<noteq> []" "list_all isDigit d" "digitsValue d < 256"
    using rmatch_octet [OF t(7)] by blast
  have "A = a @ ''.'' @ b @ ''.'' @ c @ ''.'' @ d"
    using a(1) b(1) c(1) d(1) rmatch_dot [OF t(2)] rmatch_dot [OF t(4)] rmatch_dot [OF t(6)]
    by simp
  with a b c d show ?thesis by blast
qed

subsection \<open>Canonical octet texts\<close>

lemma digitChar_digitValue: "isDigit c \<Longrightarrow> digitChar (digitValue c) = c"
  by (simp add: isDigit_iff digitChar_def digitValue_def) (simp add: charCode_def)

lemma digitValue_less: "isDigit c \<Longrightarrow> digitValue c < 10"
  by (auto simp: isDigit_iff digitValue_def charCode_def)

lemma digitValue_pos: "isDigit c \<Longrightarrow> c \<noteq> CHR ''0'' \<Longrightarrow> 0 < digitValue c"
proof -
  assume d: "isDigit c" and n: "c \<noteq> CHR ''0''"
  have "(of_char c :: nat) \<noteq> of_char CHR ''0''"
    using n by (simp only: of_char_eq_iff) simp
  with d show ?thesis
    by (simp add: isDigit_iff digitValue_def charCode_def)
qed

lemma digitsValue_pos:
  "list_all isDigit p \<Longrightarrow> p \<noteq> [] \<Longrightarrow> hd p \<noteq> CHR ''0'' \<Longrightarrow> 0 < digitsValue p"
proof (induction p rule: rev_induct)
  case Nil
  then show ?case by simp
next
  case (snoc c q)
  show ?case
  proof (cases "q = []")
    case True
    with snoc.prems show ?thesis
      by (simp add: digitsValue_simps digitValue_pos)
  next
    case False
    with snoc have "0 < digitsValue q" by simp
    then show ?thesis by (simp add: digitsValue_snoc)
  qed
qed

lemma natToString_canonical:
  "list_all isDigit p \<Longrightarrow> noLeadingZero p \<Longrightarrow> natToString 10 (digitsValue p) = p"
proof (induction p rule: rev_induct)
  case Nil
  then show ?case by (simp add: noLeadingZero_def)
next
  case (snoc c q)
  from snoc.prems have c: "isDigit c" by simp
  show ?case
  proof (cases "q = []")
    case True
    with c show ?thesis
      by (subst natToString.simps)
         (simp add: digitsValue_simps digitValue_less digitChar_digitValue)
  next
    case False
    with snoc.prems have h: "hd q \<noteq> CHR ''0''" and dq: "list_all isDigit q"
      by (auto simp: noLeadingZero_def)
    with False have pos: "0 < digitsValue q" by (simp add: digitsValue_pos)
    from False h have "noLeadingZero q" by (simp add: noLeadingZero_def)
    with snoc.IH dq have ih: "natToString 10 (digitsValue q) = q" by simp
    have v: "digitsValue (q @ [c]) = 10 * digitsValue q + digitValue c"
      by (rule digitsValue_snoc)
    have "\<not> digitsValue (q @ [c]) < 10" using pos v by simp
    moreover have "digitsValue (q @ [c]) div 10 = digitsValue q"
      using v digitValue_less [OF c] by simp
    moreover have "digitsValue (q @ [c]) mod 10 = digitValue c"
      using v digitValue_less [OF c] by simp
    ultimately show ?thesis
      by (subst natToString.simps) (simp add: ih digitChar_digitValue c)
  qed
qed

lemma take_bit_8_small:
  assumes "0 \<le> v" "v < 256"
  shows "take_bit 8 (word_of_int v :: 32 word) = word_of_int v"
    and "uint (word_of_int v :: 32 word) = v"
proof -
  show u: "uint (word_of_int v :: 32 word) = v"
    using assms by (simp add: uint_word_of_int)
  have "uint (take_bit 8 (word_of_int v :: 32 word)) = uint (word_of_int v :: 32 word)"
    unfolding unsigned_take_bit_eq u using assms by (simp add: take_bit_eq_mod)
  then show "take_bit 8 (word_of_int v :: 32 word) = word_of_int v"
    by (rule word_eq_iff_unsigned [THEN iffD2]) 
qed

subsection \<open>The number of bits needed\<close>

lemma ceil_log2_one: "n \<le> 1 \<Longrightarrow> ceil_log2 n = 0"
  by (subst ceil_log2.simps) simp

lemma ceil_log2_step: "2 \<le> n \<Longrightarrow> ceil_log2 n = 1 + ceil_log2 ((n + 1) div 2)"
  by (subst ceil_log2.simps) simp

lemma ceil_log2_nonneg: "0 \<le> ceil_log2 n"
  by (induction n rule: ceil_log2.induct) (subst ceil_log2.simps, simp)

lemma ceil_log2_eq: "1 \<le> n \<Longrightarrow> ceil_log2 n = \<lceil>log 2 (real_of_int n)\<rceil>"
proof (induction n rule: ceil_log2.induct)
  case (1 n)
  show ?case
  proof (cases "n \<le> 1")
    case True
    with 1 have "n = 1" by simp
    then show ?thesis by (simp add: ceil_log2_one)
  next
    case False
    then have n2: "2 \<le> n" by simp
    let ?m = "(n + 1) div 2"
    have m1: "1 \<le> ?m" using n2 by simp
    have ih: "ceil_log2 ?m = \<lceil>log 2 (real_of_int ?m)\<rceil>"
      using 1 False m1 by simp
    have "2 \<le> nat n" using n2 by simp
    then have "\<lceil>log 2 (real (nat n))\<rceil> = \<lceil>log 2 (real ((nat n - 1) div 2 + 1))\<rceil> + 1"
      by (rule ceiling_log2_div2)
    moreover have "real (nat n) = real_of_int n" using n2 by simp
    moreover have "int ((nat n - 1) div 2 + 1) = ?m"
      using n2 by (simp add: zdiv_int nat_diff_distrib')
    then have "real ((nat n - 1) div 2 + 1) = real_of_int ?m"
      by (metis of_int_of_nat_eq)
    ultimately have "\<lceil>log 2 (real_of_int n)\<rceil> = \<lceil>log 2 (real_of_int ?m)\<rceil> + 1"
      by simp
    with ih show ?thesis by (simp add: ceil_log2_step [OF n2])
  qed
qed

subsection \<open>The loop of the partitioner\<close>

lemma subnetsFrom_stop:
  "\<not> (of_int i < a \<and> i < n) \<Longrightarrow> subnetsFrom N c S a n i = []"
  by (subst subnetsFrom.simps) simp

lemma subnetsFrom_step:
  "of_int i < a \<Longrightarrow> i < n \<Longrightarrow> subnetsFrom N c S a n i =
     \<lparr> id' = i + 1, networkAddress = intToIp (N + i * S),
       broadcastAddress = intToIp (N + i * S + S - 1),
       firstHost = intToIp (N + i * S + 1),
       lastHost = intToIp (N + i * S + S - 2),
       cidr = c, usableHosts = S - 2 \<rparr> # subnetsFrom N c S a n (i + 1)"
  by (subst subnetsFrom.simps) (simp add: Let_def)

lemma length_subnetsFrom:
  "length (subnetsFrom N c S (of_int a) n i) = nat (min a n - i)"
proof (induction N c S "of_int a :: rat" n i rule: subnetsFrom.induct)
  case (1 N c S n i)
  show ?case
  proof (cases "of_int i < (of_int a :: rat) \<and> i < n")
    case True
    with 1 have "length (subnetsFrom N c S (of_int a) n (i + 1)) = nat (min a n - (i + 1))"
      by simp
    with True show ?thesis by (simp add: subnetsFrom_step) arith
  next
    case False
    then show ?thesis by (auto simp: subnetsFrom_stop)
  qed
qed

lemma set_subnetsFrom:
  "s \<in> set (subnetsFrom N c S a n i) \<Longrightarrow> Subnet.cidr s = c \<and> Subnet.usableHosts s = S - 2"
proof (induction N c S a n i rule: subnetsFrom.induct)
  case (1 N c S a n i)
  show ?case
  proof (cases "of_int i < a \<and> i < n")
    case True
    with 1 show ?thesis by (auto simp: subnetsFrom_step)
  next
    case False
    with 1 show ?thesis by (simp add: subnetsFrom_stop)
  qed
qed

lemma nth_subnetsFrom:
  "k < length (subnetsFrom N c S a n i) \<Longrightarrow>
     of_int (i + int k) < a \<and> i + int k < n \<and>
     Subnet.networkAddress (subnetsFrom N c S a n i ! k) = intToIp (N + (i + int k) * S) \<and>
     Subnet.broadcastAddress (subnetsFrom N c S a n i ! k) =
       intToIp (N + (i + int k) * S + S - 1)"
proof (induction N c S a n i arbitrary: k rule: subnetsFrom.induct)
  case (1 N c S a n i)
  show ?case
  proof (cases "of_int i < a \<and> i < n")
    case True
    show ?thesis
    proof (cases k)
      case 0
      with True show ?thesis by (simp add: subnetsFrom_step)
    next
      case (Suc j)
      with "1.prems" True have "j < length (subnetsFrom N c S a n (i + 1))"
        by (simp add: subnetsFrom_step)
      with "1.IH" True have "of_int (i + 1 + int j) < a \<and> i + 1 + int j < n \<and>
     Subnet.networkAddress (subnetsFrom N c S a n (i + 1) ! j) = intToIp (N + (i + 1 + int j) * S) \<and>
     Subnet.broadcastAddress (subnetsFrom N c S a n (i + 1) ! j) =
       intToIp (N + (i + 1 + int j) * S + S - 1)"
        by blast
      moreover have "subnetsFrom N c S a n i ! k = subnetsFrom N c S a n (i + 1) ! j"
        using True Suc by (subst subnetsFrom_step) simp_all
      moreover have "i + 1 + int j = i + int k" using Suc by simp
      ultimately show ?thesis by (simp only:)
    qed
  next
    case False
    with "1.prems" show ?thesis by (simp add: subnetsFrom_stop)
  qed
qed

lemma pow2_nonneg: "0 \<le> k \<Longrightarrow> pow2 k = of_int (2 ^ nat k)"
  by (simp add: pow2_def)

text \<open>
  In \<open>generateSubnets\<close> the new prefix is at most 30, so \<open>Math.pow(2, 32 - newCidr)\<close> is
  the whole number that the model uses for \<open>subnetSize\<close>.
\<close>

lemma subnetSize_whole: "c \<le> 30 \<Longrightarrow> pow2 (32 - c) = of_int (2 ^ nat (32 - c))"
  by (simp add: pow2_def)

lemma four_le_power: "2 \<le> m \<Longrightarrow> (4 :: int) \<le> 2 ^ m"
  using power_increasing [of 2 m "2 :: int"] by simp

subsection \<open>The parent network is aligned\<close>

lemma uint_not_mask:
  assumes "m \<le> 32"
  shows "uint (NOT (mask m) :: 32 word) = 2 ^ 32 - 2 ^ m"
proof -
  have "uint (mask m :: 32 word) = mask (min LENGTH(32) m)" by (rule uint_mask_eq)
  also have "min LENGTH(32) m = m" using assms by simp
  also have "(mask m :: int) = 2 ^ m - 1" by (rule mask_eq_exp_minus_1)
  finally have 1: "uint (mask m :: 32 word) = 2 ^ m - 1" .
  have 2: "NOT (mask m :: 32 word) = - 1 - mask m"
    by (simp add: not_eq_complement)
  have "uint (mask m :: 32 word) \<le> uint (- 1 :: 32 word)"
    using word_n1_ge [of "mask m :: 32 word"] by (simp only: word_le_def)
  then have "uint (- 1 - mask m :: 32 word) = uint (- 1 :: 32 word) - uint (mask m :: 32 word)"
    by (rule uint_sub_lem [THEN iffD1])
  moreover have "uint (- 1 :: 32 word) = 2 ^ 32 - 1"
    by (simp add: unsigned_minus_1_eq_mask mask_eq_exp_minus_1)
  ultimately show ?thesis using 1 2 by simp
qed

lemma mask_word_of_prefix:
  assumes "0 \<le> P" "P < 32"
  shows "(word_of_int (ipToInt (cidrToSubnetMask P)) :: 32 word) = NOT (mask (nat (32 - P)))"
proof -
  have p: "nat (P mod 32) = nat P" using assms by simp
  have "drop_bit (nat P) (- 1 :: 32 word) = drop_bit (nat P) (mask 32)"
    using minus_1_eq_mask [where 'a = 32] by simp
  also have "\<dots> = mask (32 - nat P)"
    by (rule bit_word_eqI) (auto simp: bit_simps)
  also have "32 - nat P = nat (32 - P)" using assms by simp
  finally have d: "drop_bit (nat P) (- 1 :: 32 word) = mask (nat (32 - P))" .
  have "(word_of_int (ipToInt (cidrToSubnetMask P)) :: 32 word) =
          NOT (drop_bit (nat P) (word_of_int 4294967295))"
    by (simp add: cidrToSubnetMask_def Let_def word_ipToInt_intToIp js_ushr_def js_not_def p)
  also have "(word_of_int 4294967295 :: 32 word) = - 1" by simp
  finally show ?thesis by (simp only: d)
qed

lemma baseNetwork_aligned:
  assumes "0 \<le> P" "P < 32"
  shows "0 \<le> baseNetwork ip P \<and> baseNetwork ip P + 2 ^ nat (32 - P) \<le> 2 ^ 32"
proof -
  let ?M = "NOT (mask (nat (32 - P))) :: 32 word"
  have u: "uint ?M = 2 ^ 32 - 2 ^ nat (32 - P)"
    using assms by (intro uint_not_mask) simp
  have "baseNetwork ip P = uint ((word_of_int (ipToInt ip) :: 32 word) AND ?M)"
    by (simp add: baseNetwork_def network_word mask_word_of_prefix [OF assms])
  also have "\<dots> = uint (word_of_int (ipToInt ip) :: 32 word) AND uint ?M"
    by (rule uint_and)
  also have "\<dots> \<le> uint ?M" by (rule AND_upper2) simp
  finally have "baseNetwork ip P \<le> 2 ^ 32 - 2 ^ nat (32 - P)" by (simp only: u)
  moreover have "0 \<le> baseNetwork ip P"
    using ipToInt_range by (simp add: baseNetwork_def)
  ultimately show ?thesis by simp
qed

lemma pow2_neg_le_one: "k < 0 \<Longrightarrow> pow2 k \<le> 1"
proof -
  assume "k < 0"
  have "(1 :: rat) \<le> 2 ^ nat (- k)" by simp
  then have "1 / 2 ^ nat (- k) \<le> (1 :: rat)" by (simp add: divide_le_eq)
  with \<open>k < 0\<close> show ?thesis by (simp add: pow2_def)
qed

lemma ipToInt_intToIp_id: "0 \<le> x \<Longrightarrow> x < 2 ^ 32 \<Longrightarrow> ipToInt (intToIp x) = x"
  unfolding ipToInt_intToIp by (rule mod_pos_pos_trivial)

subsection \<open>Counting the bits of a mask\<close>

lemma js_test_bit:
  assumes "0 \<le> i" "i < 32"
  shows "js_and m (js_shl 1 (31 - i)) \<noteq> 0 \<longleftrightarrow> bit (word_of_int m :: 32 word) (nat (31 - i))"
proof -
  have k: "nat ((31 - i) mod 32) = nat (31 - i)" using assms by simp
  have "js_and m (js_shl 1 (31 - i)) = sint ((word_of_int m :: 32 word) AND 2 ^ nat (31 - i))"
    by (simp add: js_and_def js_shl_def k push_bit_of_1)
  then show ?thesis
    by (simp add: signed_eq_0_iff and_exp_eq_0_iff_not_bit)
qed

lemma countBits_prefix_mask:
  assumes "p \<le> 32"
  shows "0 \<le> i \<Longrightarrow> i \<le> 32 \<Longrightarrow>
     countBits (uint (NOT (mask (32 - p)) :: 32 word)) i c = c + max 0 (int p - i)"
proof (induction "uint (NOT (mask (32 - p)) :: 32 word)" i c rule: countBits.induct)
  case (1 i c)
  let ?m = "uint (NOT (mask (32 - p)) :: 32 word)"
  show ?case
  proof (cases "i < 32")
    case False
    with 1 assms show ?thesis by (subst countBits.simps) simp
  next
    case True
    have b: "js_and ?m (js_shl 1 (31 - i)) \<noteq> 0 \<longleftrightarrow> i < int p"
      unfolding js_test_bit [OF "1.prems"(1) True] using True "1.prems" assms
      by (auto simp: bit_simps)
    let ?c = "if js_and ?m (js_shl 1 (31 - i)) \<noteq> 0 then c + 1 else c"
    from 1 True have ih: "countBits ?m (i + 1) ?c = ?c + max 0 (int p - (i + 1))"
      by simp
    have "countBits ?m i c = countBits ?m (i + 1) ?c"
      using True by (subst countBits.simps) simp
    also note ih
    also have "?c + max 0 (int p - (i + 1)) = c + max 0 (int p - i)"
      using b by auto
    finally show ?thesis .
  qed
qed

lemma cidr_mask_roundtrip_below_32:
  assumes "0 \<le> P" "P \<le> 31"
  shows "subnetMaskToCidr (cidrToSubnetMask P) = P"
proof -
  have P: "P < 32" using assms by simp
  have "uint (word_of_int (ipToInt (cidrToSubnetMask P)) :: 32 word) =
          ipToInt (cidrToSubnetMask P)"
    using ipToInt_range [of "cidrToSubnetMask P"] by (simp add: uint_word_of_int)
  then have "ipToInt (cidrToSubnetMask P) = uint (NOT (mask (nat (32 - P))) :: 32 word)"
    by (simp only: mask_word_of_prefix [OF assms(1) P])
  moreover have "nat (32 - P) = 32 - nat P" using assms by simp
  ultimately show ?thesis
    using countBits_prefix_mask [of "nat P" 0 0] assms
    by (simp add: subnetMaskToCidr_def Let_def)
qed

section \<open>Properties\<close>

text \<open>
  C1 (defect at prefix 32). The claim asks that \<open>subnetMaskToCidr (cidrToSubnetMask P) = P\<close>
  for every \<open>P\<close> in \<open>[0, 32]\<close> and that prefix 32 gives the all-one mask. In
  \<open>cidrToSubnetMask\<close> the shift \<open>0xffffffff >>> 32\<close> shifts by \<open>32 mod 32 = 0\<close>, so at
  prefix 32 the code returns the all-zero mask, which converts back to 0.
\<close>

theorem C1_prefix_32_gives_zero_mask:
  "cidrToSubnetMask 32 = ''0.0.0.0'' \<and> subnetMaskToCidr (cidrToSubnetMask 32) = 0"
  by code_simp

text \<open>
  C2 (same defect). \<open>calculateIPInfo\<close> at \<open>10.0.0.5\<close> with prefix 32 reports the whole
  address space (network \<open>0.0.0.0\<close>, broadcast \<open>255.255.255.255\<close>) instead of
  network = broadcast = \<open>10.0.0.5\<close>; \<open>totalHosts = 1\<close> and \<open>usableHosts = 0\<close> are as
  claimed.
\<close>

theorem C2_info_at_prefix_32:
  "calculateIPInfo ''10.0.0.5'' 32 =
     Inr \<lparr> IPResult.networkAddress = ''0.0.0.0'',
           IPResult.broadcastAddress = ''255.255.255.255'',
           firstValidHost = ''0.0.0.1'',
           lastValidHost = ''255.255.255.254'',
           totalHosts = 1,
           IPResult.usableHosts = 0,
           IPResult.cidr = 32,
           subnetMask = ''0.0.0.0'',
           binarySubnetMask = ''00000000 00000000 00000000 00000000'',
           binaryIpAddress = ''00001010 00000000 00000000 00000101'',
           binaryNetworkAddress = ''00000000 00000000 00000000 00000000'',
           wildcardMask = ''255.255.255.255'',
           subnetBits = 8,
           hostBits = 0 \<rparr>"
proof -
  have m: "cidrToSubnetMask 32 = ''0.0.0.0''" by code_simp
  have n: "calculateNetworkAddress ''10.0.0.5'' ''0.0.0.0'' = ''0.0.0.0''" by code_simp
  have b: "calculateBroadcastAddress ''10.0.0.5'' ''0.0.0.0'' = ''255.255.255.255''"
    by code_simp
  have f: "calculateFirstHost ''0.0.0.0'' = ''0.0.0.1''" by code_simp
  have l: "calculateLastHost ''255.255.255.255'' = ''255.255.255.254''" by code_simp
  have w: "calculateWildcardMask ''0.0.0.0'' = ''255.255.255.255''" by code_simp
  have bm: "ipToBinary ''0.0.0.0'' = ''00000000 00000000 00000000 00000000''" by code_simp
  have bi: "ipToBinary ''10.0.0.5'' = ''00001010 00000000 00000000 00000101''" by code_simp
  have t: "pow2 (32 - 32) = 1" by (simp add: pow2_def)
  show ?thesis
    unfolding calculateIPInfo_def Let_def m n b f l w bm bi t by simp
qed

text \<open>
  C3 (defect at prefix 32). The claim asks that, for every valid address and for the
  prefixes 31 and 32, the result has its first host above its last host. At prefix 31
  the code does that, for every address (\<open>reversedHostRange_prefix_31\<close>). At prefix 32
  \<open>cidrToSubnetMask\<close> returns the all-zero mask (the shift of C1), so the network is
  \<open>0.0.0.0\<close> and the broadcast \<open>255.255.255.255\<close>: for \<open>192.168.1.10\<close>, as for every
  address (\<open>hostRange_prefix_32\<close>), the first host is \<open>0.0.0.1\<close> and the last host
  \<open>255.255.255.254\<close>, so the first lies below the last.
\<close>

theorem C3_prefix_32_host_range:
  "isValidIP ''192.168.1.10'' \<and>
   hostRange (calculateIPInfo ''192.168.1.10'' 32) = Some (1, 4294967294) \<and>
   \<not> reversedHostRange ''192.168.1.10'' 32"
proof -
  have v: "isValidIP ''192.168.1.10''" by code_simp
  have m: "cidrToSubnetMask 32 = ''0.0.0.0''" by code_simp
  have n: "calculateNetworkAddress ''192.168.1.10'' ''0.0.0.0'' = ''0.0.0.0''" by code_simp
  have b: "calculateBroadcastAddress ''192.168.1.10'' ''0.0.0.0'' = ''255.255.255.255''"
    by code_simp
  have f: "calculateFirstHost ''0.0.0.0'' = ''0.0.0.1''" by code_simp
  have l: "calculateLastHost ''255.255.255.255'' = ''255.255.255.254''" by code_simp
  have i: "ipToInt ''0.0.0.1'' = 1" "ipToInt ''255.255.255.254'' = 4294967294"
    by code_simp+
  have h: "hostRange (calculateIPInfo ''192.168.1.10'' 32) = Some (1, 4294967294)"
    unfolding hostRange_eq m n b f l i by simp
  then have "\<not> reversedHostRange ''192.168.1.10'' 32"
    by (simp add: reversedHostRange_def)
  with v h show ?thesis by blast
qed

text \<open>
  C4 (amended). \<open>calculateIPInfo\<close> checks neither the address text nor the prefix
  and has no failure result: for every text and every integer prefix from \<open>-22\<close> to
  \<open>1106\<close> (the prefixes at which the arithmetic of the source is exact in doubles, far
  beyond \<open>[0, 32]\<close> on both sides) it returns a result, which carries the prefix
  unchanged in \<open>cidr\<close> and \<open>32 - prefix\<close> in \<open>hostBits\<close>, and whose mask is the mask of
  the prefix taken modulo 32, since \<open>>>>\<close> reduces its shift count. Validation is left
  to the callers (the form calls \<open>isValidIP\<close> before it calls \<open>calculateIPInfo\<close>).
\<close>

theorem C4_no_validation:
  assumes "- 22 \<le> P" and "P \<le> 1106"
  shows "\<exists>r. calculateIPInfo ip P = Inr r \<and> IPResult.cidr r = P \<and> hostBits r = 32 - P \<and>
       subnetMask r = cidrToSubnetMask (P mod 32)"
proof -
  have "cidrToSubnetMask P = cidrToSubnetMask (P mod 32)"
    by (simp add: cidrToSubnetMask_def js_ushr_def)
  then show ?thesis
    by (simp add: calculateIPInfo_def Let_def)
qed

text \<open>
  C4 (amended), at the text \<open>abc\<close> with prefix 40: a result with the mask of prefix 8.
\<close>

theorem C4_no_validation_witness:
  "(- 22 :: int) \<le> 40 \<and> (40 :: int) \<le> 1106 \<and> \<not> isValidIP ''abc'' \<and>
   (\<exists>r. calculateIPInfo ''abc'' 40 = Inr r \<and> IPResult.cidr r = 40 \<and> hostBits r = - 8 \<and>
        subnetMask r = ''255.0.0.0'')"
proof -
  have h: "(- 22 :: int) \<le> 40" "(40 :: int) \<le> 1106" by simp_all
  have v: "\<not> isValidIP ''abc''" by code_simp
  have m: "cidrToSubnetMask 8 = ''255.0.0.0''" by code_simp
  from C4_no_validation [OF h, of "''abc''"] obtain r where
    "calculateIPInfo ''abc'' 40 = Inr r" "IPResult.cidr r = 40" "hostBits r = 32 - 40"
    "subnetMask r = cidrToSubnetMask (40 mod 32)" by blast
  then have "calculateIPInfo ''abc'' 40 = Inr r \<and> IPResult.cidr r = 40 \<and> hostBits r = - 8 \<and>
        subnetMask r = ''255.0.0.0''"
    using m by simp
  with h v show ?thesis by blast
qed

text \<open>
  C4 as stated fails: prefix 33 with a valid address, and the malformed text \<open>1.1.1\<close>,
  both yield a result.
\<close>

theorem C4_counterexample:
  "isValidIP ''1.1.1.1'' \<and>
   calculateIPInfo ''1.1.1.1'' 33 =
     Inr \<lparr> IPResult.networkAddress = ''0.0.0.0'',
           IPResult.broadcastAddress = ''127.255.255.255'',
           firstValidHost = ''0.0.0.1'',
           lastValidHost = ''127.255.255.254'',
           totalHosts = 1 / 2,
           IPResult.usableHosts = 0,
           IPResult.cidr = 33,
           subnetMask = ''128.0.0.0'',
           binarySubnetMask = ''10000000 00000000 00000000 00000000'',
           binaryIpAddress = ''00000001 00000001 00000001 00000001'',
           binaryNetworkAddress = ''00000000 00000000 00000000 00000000'',
           wildcardMask = ''127.255.255.255'',
           subnetBits = 9,
           hostBits = - 1 \<rparr> \<and>
   \<not> isValidIP ''1.1.1'' \<and>
   calculateIPInfo ''1.1.1'' 24 =
     Inr \<lparr> IPResult.networkAddress = ''1.1.1.0'',
           IPResult.broadcastAddress = ''1.1.1.255'',
           firstValidHost = ''1.1.1.1'',
           lastValidHost = ''1.1.1.254'',
           totalHosts = 256,
           IPResult.usableHosts = 254,
           IPResult.cidr = 24,
           subnetMask = ''255.255.255.0'',
           binarySubnetMask = ''11111111 11111111 11111111 00000000'',
           binaryIpAddress = ''00000001 00000001 00000001'',
           binaryNetworkAddress = ''00000001 00000001 00000001 00000000'',
           wildcardMask = ''0.0.0.255'',
           subnetBits = 8,
           hostBits = 8 \<rparr>"
proof -
  have v: "isValidIP ''1.1.1.1''" "\<not> isValidIP ''1.1.1''" by code_simp+
  have m: "cidrToSubnetMask 33 = ''128.0.0.0''" by code_simp
  have n: "calculateNetworkAddress ''1.1.1.1'' ''128.0.0.0'' = ''0.0.0.0''" by code_simp
  have b: "calculateBroadcastAddress ''1.1.1.1'' ''128.0.0.0'' = ''127.255.255.255''"
    by code_simp
  have f: "calculateFirstHost ''0.0.0.0'' = ''0.0.0.1''" by code_simp
  have l: "calculateLastHost ''127.255.255.255'' = ''127.255.255.254''" by code_simp
  have w: "calculateWildcardMask ''128.0.0.0'' = ''127.255.255.255''" by code_simp
  have bm: "ipToBinary ''128.0.0.0'' = ''10000000 00000000 00000000 00000000''" by code_simp
  have bi: "ipToBinary ''1.1.1.1'' = ''00000001 00000001 00000001 00000001''" by code_simp
  have bn: "ipToBinary ''0.0.0.0'' = ''00000000 00000000 00000000 00000000''" by code_simp
  have t: "pow2 (32 - 33) = 1 / 2" by (simp add: pow2_def)
  have 1: "calculateIPInfo ''1.1.1.1'' 33 =
     Inr \<lparr> IPResult.networkAddress = ''0.0.0.0'',
           IPResult.broadcastAddress = ''127.255.255.255'',
           firstValidHost = ''0.0.0.1'',
           lastValidHost = ''127.255.255.254'',
           totalHosts = 1 / 2,
           IPResult.usableHosts = 0,
           IPResult.cidr = 33,
           subnetMask = ''128.0.0.0'',
           binarySubnetMask = ''10000000 00000000 00000000 00000000'',
           binaryIpAddress = ''00000001 00000001 00000001 00000001'',
           binaryNetworkAddress = ''00000000 00000000 00000000 00000000'',
           wildcardMask = ''127.255.255.255'',
           subnetBits = 9,
           hostBits = - 1 \<rparr>"
    unfolding calculateIPInfo_def Let_def m n b f l w bm bi bn t by simp
  have m': "cidrToSubnetMask 24 = ''255.255.255.0''" by code_simp
  have n': "calculateNetworkAddress ''1.1.1'' ''255.255.255.0'' = ''1.1.1.0''" by code_simp
  have b': "calculateBroadcastAddress ''1.1.1'' ''255.255.255.0'' = ''1.1.1.255''"
    by code_simp
  have f': "calculateFirstHost ''1.1.1.0'' = ''1.1.1.1''" by code_simp
  have l': "calculateLastHost ''1.1.1.255'' = ''1.1.1.254''" by code_simp
  have w': "calculateWildcardMask ''255.255.255.0'' = ''0.0.0.255''" by code_simp
  have bm': "ipToBinary ''255.255.255.0'' = ''11111111 11111111 11111111 00000000''"
    by code_simp
  have bi': "ipToBinary ''1.1.1'' = ''00000001 00000001 00000001''" by code_simp
  have bn': "ipToBinary ''1.1.1.0'' = ''00000001 00000001 00000001 00000000''" by code_simp
  have t': "pow2 (32 - 24) = 256" by (simp add: pow2_def)
  have 2: "calculateIPInfo ''1.1.1'' 24 =
     Inr \<lparr> IPResult.networkAddress = ''1.1.1.0'',
           IPResult.broadcastAddress = ''1.1.1.255'',
           firstValidHost = ''1.1.1.1'',
           lastValidHost = ''1.1.1.254'',
           totalHosts = 256,
           IPResult.usableHosts = 254,
           IPResult.cidr = 24,
           subnetMask = ''255.255.255.0'',
           binarySubnetMask = ''11111111 11111111 11111111 00000000'',
           binaryIpAddress = ''00000001 00000001 00000001'',
           binaryNetworkAddress = ''00000001 00000001 00000001 00000000'',
           wildcardMask = ''0.0.0.255'',
           subnetBits = 8,
           hostBits = 8 \<rparr>"
    unfolding calculateIPInfo_def Let_def m' n' b' f' l' w' bm' bi' bn' t' by simp
  from v 1 2 show ?thesis by blast
qed



text \<open>
  C6 (amended). For every address text accepted by \<open>isValidIP\<close> in which no octet has
  a superfluous leading zero, \<open>intToIp (ipToInt A) = A\<close>.
\<close>

theorem C6_canonical_text_int_text:
  assumes "isValidIP A" and "canonical A"
  shows "intToIp (ipToInt A) = A"
proof -
  from isValidIP_parts [OF assms(1)] obtain a b c d where
    A: "A = a @ ''.'' @ b @ ''.'' @ c @ ''.'' @ d"
    and a: "a \<noteq> []" "list_all isDigit a" "digitsValue a < 256"
    and b: "b \<noteq> []" "list_all isDigit b" "digitsValue b < 256"
    and c: "c \<noteq> []" "list_all isDigit c" "digitsValue c < 256"
    and d: "d \<noteq> []" "list_all isDigit d" "digitsValue d < 256"
    by auto
  have sp: "split CHR ''.'' A = [a, b, c, d]"
    unfolding A by (rule split_four) (simp_all add: digits_no_dot a b c d)
  with assms(2) have can: "noLeadingZero a" "noLeadingZero b" "noLeadingZero c" "noLeadingZero d"
    by (simp_all add: canonical_def)
  let ?v = "\<lambda>p. int (digitsValue p)"
  let ?w = "\<lambda>p. word_of_int (?v p) :: 32 word"
  let ?X = "push_bit 24 (?w a) OR push_bit 16 (?w b) OR push_bit 8 (?w c) OR ?w d"
  have X: "ipToInt A = uint ?X"
    by (rule ipToInt_parts [OF sp]) (simp_all add: parseInt_digits a b c d)
  have tb: "take_bit 8 (?w a) = ?w a" "take_bit 8 (?w b) = ?w b"
           "take_bit 8 (?w c) = ?w c" "take_bit 8 (?w d) = ?w d"
    by (rule take_bit_8_small(1); use a(3) b(3) c(3) d(3) in simp)+
  have ui: "uint (?w a) = ?v a" "uint (?w b) = ?v b" "uint (?w c) = ?v c" "uint (?w d) = ?v d"
    by (rule take_bit_8_small(2); use a(3) b(3) c(3) d(3) in simp)+
  have o24: "octet (uint ?X) 24 = ?v a"
    unfolding octet_def word_of_int_uint extract_word(1) [OF tb] by (rule ui)
  have o16: "octet (uint ?X) 16 = ?v b"
    unfolding octet_def word_of_int_uint extract_word(2) [OF tb] by (rule ui)
  have o8: "octet (uint ?X) 8 = ?v c"
    unfolding octet_def word_of_int_uint extract_word(3) [OF tb] by (rule ui)
  have o0: "octet (uint ?X) 0 = ?v d"
    unfolding octet_def word_of_int_uint drop_bit_0 id_apply extract_word(4) [OF tb] by (rule ui)
  show ?thesis
    unfolding X intToIp_text o24 o16 o8 o0
    by (simp add: natToString_canonical a b c d can A)
qed

text \<open>C6 (amended), at \<open>192.168.1.10\<close>.\<close>

theorem C6_canonical_text_int_text_witness:
  "isValidIP ''192.168.1.10'' \<and> canonical ''192.168.1.10'' \<and>
   intToIp (ipToInt ''192.168.1.10'') = ''192.168.1.10''"
proof -
  have v: "isValidIP ''192.168.1.10''" by code_simp
  have c: "canonical ''192.168.1.10''" by code_simp
  from C6_canonical_text_int_text [OF v c] v c show ?thesis by blast
qed

text \<open>
  C6 as stated fails: \<open>10.0.0.05\<close> is accepted by \<open>isValidIP\<close> and comes back as
  \<open>10.0.0.5\<close>.
\<close>

theorem C6_counterexample:
  "isValidIP ''10.0.0.05'' \<and> intToIp (ipToInt ''10.0.0.05'') = ''10.0.0.5'' \<and>
   intToIp (ipToInt ''10.0.0.05'') \<noteq> ''10.0.0.05''"
proof -
  have v: "isValidIP ''10.0.0.05''" by code_simp
  have r: "intToIp (ipToInt ''10.0.0.05'') = ''10.0.0.5''" by code_simp
  from v r show ?thesis by simp
qed

text \<open>
  C7. For every unsigned 32-bit \<open>V\<close>, also with the top bit set,
  \<open>ipToInt (intToIp V) = V\<close>; the result is not negative, and it is the big-endian
  packing of the four octets that \<open>intToIp\<close> prints.
\<close>

theorem C7_int_text_int:
  assumes "0 \<le> V" "V < 2 ^ 32"
  shows "ipToInt (intToIp V) = V \<and> 0 \<le> ipToInt (intToIp V) \<and>
         intToIp V = join ''.'' (map (toString 10) [octet V 24, octet V 16, octet V 8, octet V 0]) \<and>
         ipToInt (intToIp V) =
            octet V 24 * 2 ^ 24 + octet V 16 * 2 ^ 16 + octet V 8 * 2 ^ 8 + octet V 0"
proof -
  have b: "V < 4294967296" using assms(2) by simp
  have rt: "ipToInt (intToIp V) = V"
    unfolding ipToInt_intToIp using assms by (intro mod_pos_pos_trivial)
  have text_eq: "intToIp V =
      join ''.'' (map (toString 10) [octet V 24, octet V 16, octet V 8, octet V 0])"
    by (simp add: intToIp_text toString_nonneg octet_nonneg)
  have pack: "V = octet V 24 * 16777216 + octet V 16 * 65536 + octet V 8 * 256 + octet V 0"
    unfolding octets_of_uint32 [OF assms(1) b] by (rule pack_arith [OF assms(1) b])
  show ?thesis
    using rt text_eq pack assms(1) by simp
qed

text \<open>C7, at \<open>192.168.1.1\<close>, whose top bit is set.\<close>

theorem C7_int_text_int_witness:
  "(0::int) \<le> 3232235777 \<and> (3232235777::int) < 2 ^ 32 \<and>
   ipToInt (intToIp 3232235777) = 3232235777"
proof -
  have h: "(0::int) \<le> 3232235777" "(3232235777::int) < 2 ^ 32" by simp_all
  have "ipToInt (intToIp 3232235777) = 3232235777"
    using C7_int_text_int [OF h] by (rule conjunct1)
  with h show ?thesis by blast
qed

text \<open>
  C8. For every valid address, base prefix in \<open>[0, 32]\<close> and count, the list that
  \<open>generateSubnets\<close> returns is contiguous and ordered: for every adjacent pair, the
  network address of a subnet is not above its broadcast address, and its broadcast
  address plus one is the network address of the next subnet (as unsigned 32-bit
  integers, without wrap-around); every subnet carries the same prefix \<open>newCidr\<close>.
\<close>

theorem C8_contiguous_same_prefix:
  assumes "isValidIP ip" and "0 \<le> P" and "P \<le> 32"
    and "generateSubnets ip P n = Inr subs"
  shows "(\<forall>s \<in> set subs. Subnet.cidr s = newCidrOf P n) \<and>
         (\<forall>i. Suc i < length subs \<longrightarrow>
            ipToInt (Subnet.networkAddress (subs ! i))
              \<le> ipToInt (Subnet.broadcastAddress (subs ! i)) \<and>
            ipToInt (Subnet.broadcastAddress (subs ! i)) + 1
              = ipToInt (Subnet.networkAddress (subs ! Suc i)))"
proof (cases "n \<le> 0")
  case True
  with assms(4) show ?thesis by (simp add: generateSubnets_nonpos)
next
  case False
  then have n: "0 < n" by simp
  let ?c = "newCidrOf P n"
  let ?N = "baseNetwork ip P"
  let ?S = "2 ^ nat (32 - ?c) :: int"
  let ?a = "pow2 (?c - P)"
  have subs: "subs = subnetsFrom ?N ?c ?S ?a n 0"
    using assms(4) by (simp add: generateSubnets_eq [OF n])
  have c30: "?c \<le> 30" by (simp add: newCidrOf_def)
  have same: "\<forall>s \<in> set subs. Subnet.cidr s = ?c"
    unfolding subs using set_subnetsFrom by blast
  have pairs: "ipToInt (Subnet.networkAddress (subs ! i))
              \<le> ipToInt (Subnet.broadcastAddress (subs ! i)) \<and>
            ipToInt (Subnet.broadcastAddress (subs ! i)) + 1
              = ipToInt (Subnet.networkAddress (subs ! Suc i))"
    if len: "Suc i < length subs" for i
  proof -
    from len have li: "i < length (subnetsFrom ?N ?c ?S ?a n 0)"
      and ls: "Suc i < length (subnetsFrom ?N ?c ?S ?a n 0)" by (simp_all add: subs)
    have ni: "Subnet.networkAddress (subs ! i) = intToIp (?N + int i * ?S)"
      and bi: "Subnet.broadcastAddress (subs ! i) = intToIp (?N + int i * ?S + ?S - 1)"
      using nth_subnetsFrom [OF li] by (simp_all add: subs)
    have ns: "Subnet.networkAddress (subs ! Suc i) = intToIp (?N + (int i + 1) * ?S)"
      and lt: "of_int (int (Suc i)) < ?a"
      using nth_subnetsFrom [OF ls] by (simp_all add: subs add.commute)
    have P30: "P \<le> 30"
    proof (rule ccontr)
      assume "\<not> P \<le> 30"
      with c30 have "?c - P < 0" by simp
      then have "?a \<le> 1" by (rule pow2_neg_le_one)
      moreover have "(1 :: rat) \<le> of_int (int (Suc i))" by simp
      ultimately show False using lt by simp
    qed
    have cP: "P \<le> ?c"
      using ceil_log2_nonneg [of n] P30 by (simp add: newCidrOf_def)
    let ?A = "2 ^ nat (?c - P) :: int"
    have "?a = of_int ?A" using cP by (simp add: pow2_nonneg)
    with lt have "of_int (int (Suc i)) < (of_int ?A :: rat)" by simp
    then have "int (Suc i) < ?A" by (simp only: of_int_less_iff)
    then have iA: "int i + 2 \<le> ?A" by simp
    have S4: "4 \<le> ?S" using c30 by (intro four_le_power) simp
    have "nat (?c - P) + nat (32 - ?c) = nat (32 - P)" using cP c30 by simp
    then have AS: "?A * ?S = 2 ^ nat (32 - P)" by (simp add: power_add [symmetric])
    have "(int i + 2) * ?S \<le> ?A * ?S"
      using iA S4 by (intro mult_right_mono) simp_all
    then have b: "int i * ?S + 2 * ?S \<le> 2 ^ nat (32 - P)"
      unfolding AS by (simp add: distrib_right)
    have al: "0 \<le> ?N" "?N + 2 ^ nat (32 - P) \<le> 2 ^ 32"
      using baseNetwork_aligned [of P ip] assms(2) P30 by simp_all
    have i0: "0 \<le> int i * ?S" by simp
    have e: "(int i + 1) * ?S = int i * ?S + ?S" by (simp add: distrib_right)
    have r1: "ipToInt (intToIp (?N + int i * ?S)) = ?N + int i * ?S"
      using al b i0 S4 by (intro ipToInt_intToIp_id) linarith+
    have r2: "ipToInt (intToIp (?N + int i * ?S + ?S - 1)) = ?N + int i * ?S + ?S - 1"
      using al b i0 S4 by (intro ipToInt_intToIp_id) linarith+
    have r3: "ipToInt (intToIp (?N + (int i + 1) * ?S)) = ?N + int i * ?S + ?S"
      unfolding e using al b i0 S4 by (intro ipToInt_intToIp_id [THEN trans]) linarith+
    show ?thesis
      unfolding ni bi ns r1 r2 r3 using S4 by simp
  qed
  from same pairs show ?thesis by blast
qed

text \<open>C8, for \<open>192.168.0.0/24\<close> split in 4, at the first pair of subnets.\<close>

theorem C8_contiguous_same_prefix_witness:
  "isValidIP ''192.168.0.0'' \<and> (0 :: int) \<le> 24 \<and> (24 :: int) \<le> 32 \<and>
   generateSubnets ''192.168.0.0'' 24 4 =
     Inr [\<lparr> id' = 1, networkAddress = ''192.168.0.0'', broadcastAddress = ''192.168.0.63'',
            firstHost = ''192.168.0.1'', lastHost = ''192.168.0.62'', cidr = 26,
            usableHosts = 62 \<rparr>,
          \<lparr> id' = 2, networkAddress = ''192.168.0.64'', broadcastAddress = ''192.168.0.127'',
            firstHost = ''192.168.0.65'', lastHost = ''192.168.0.126'', cidr = 26,
            usableHosts = 62 \<rparr>,
          \<lparr> id' = 3, networkAddress = ''192.168.0.128'', broadcastAddress = ''192.168.0.191'',
            firstHost = ''192.168.0.129'', lastHost = ''192.168.0.190'', cidr = 26,
            usableHosts = 62 \<rparr>,
          \<lparr> id' = 4, networkAddress = ''192.168.0.192'', broadcastAddress = ''192.168.0.255'',
            firstHost = ''192.168.0.193'', lastHost = ''192.168.0.254'', cidr = 26,
            usableHosts = 62 \<rparr>] \<and>
   newCidrOf 24 4 = 26 \<and>
   ipToInt ''192.168.0.0'' \<le> ipToInt ''192.168.0.63'' \<and>
   ipToInt ''192.168.0.63'' + 1 = ipToInt ''192.168.0.64''"
proof -
  have v: "isValidIP ''192.168.0.0''" by code_simp
  have g: "generateSubnets ''192.168.0.0'' 24 4 =
     Inr [\<lparr> id' = 1, networkAddress = ''192.168.0.0'', broadcastAddress = ''192.168.0.63'',
            firstHost = ''192.168.0.1'', lastHost = ''192.168.0.62'', cidr = 26,
            usableHosts = 62 \<rparr>,
          \<lparr> id' = 2, networkAddress = ''192.168.0.64'', broadcastAddress = ''192.168.0.127'',
            firstHost = ''192.168.0.65'', lastHost = ''192.168.0.126'', cidr = 26,
            usableHosts = 62 \<rparr>,
          \<lparr> id' = 3, networkAddress = ''192.168.0.128'', broadcastAddress = ''192.168.0.191'',
            firstHost = ''192.168.0.129'', lastHost = ''192.168.0.190'', cidr = 26,
            usableHosts = 62 \<rparr>,
          \<lparr> id' = 4, networkAddress = ''192.168.0.192'', broadcastAddress = ''192.168.0.255'',
            firstHost = ''192.168.0.193'', lastHost = ''192.168.0.254'', cidr = 26,
            usableHosts = 62 \<rparr>]" by code_simp
  have h: "(0 :: int) \<le> 24" "(24 :: int) \<le> 32" by simp_all
  note t = C8_contiguous_same_prefix [OF v h g]
  from t have c: "newCidrOf 24 4 = 26" by simp
  from t have p: "ipToInt ''192.168.0.0'' \<le> ipToInt ''192.168.0.63'' \<and>
     ipToInt ''192.168.0.63'' + 1 = ipToInt ''192.168.0.64''"
    by (elim conjE allE [of _ 0]) simp
  from v h g c p show ?thesis by blast
qed

text \<open>
  C9. For every valid address, base prefix in \<open>[0, 30]\<close> and count in \<open>[2, 1024]\<close>,
  \<open>generateSubnets\<close> returns exactly \<open>min (2 ^ (newCidr - baseCidr)) count\<close> subnets,
  where \<open>newCidr = min (baseCidr + \<lceil>log\<^sub>2 count\<rceil>) 30\<close>; each has prefix \<open>newCidr\<close>
  and \<open>2 ^ (32 - newCidr) - 2\<close> usable hosts, which is at least 2.
\<close>

theorem C9_new_prefix_and_count:
  fixes ip :: string and P n :: int
  defines "newCidr \<equiv> min (P + \<lceil>log 2 (real_of_int n)\<rceil>) 30"
  assumes "isValidIP ip" and "0 \<le> P" and "P \<le> 30" and "2 \<le> n" and "n \<le> 1024"
  shows "\<exists>subs. generateSubnets ip P n = Inr subs \<and>
           int (length subs) = min (2 ^ nat (newCidr - P)) n \<and>
           (\<forall>s \<in> set subs. Subnet.cidr s = newCidr \<and>
                Subnet.usableHosts s = 2 ^ nat (32 - newCidr) - 2 \<and>
                2 \<le> Subnet.usableHosts s)"
proof -
  have nc: "newCidrOf P n = newCidr"
    using assms(5) by (simp add: newCidrOf_def newCidr_def ceil_log2_eq)
  have ge: "P \<le> newCidr"
    using ceil_log2_nonneg [of n] assms(4) nc [symmetric] by (simp add: newCidrOf_def)
  have le: "newCidr \<le> 30" by (simp add: newCidr_def)
  let ?S = "2 ^ nat (32 - newCidr) :: int"
  let ?a = "2 ^ nat (newCidr - P) :: int"
  let ?subs = "subnetsFrom (baseNetwork ip P) newCidr ?S (of_int ?a) n 0"
  have g: "generateSubnets ip P n = Inr ?subs"
    using assms(5) ge by (simp add: generateSubnets_eq nc pow2_nonneg)
  have "0 \<le> min ?a n" using assms(5) by simp
  then have len: "int (length ?subs) = min ?a n"
    unfolding length_subnetsFrom by simp
  have "2 \<le> nat (32 - newCidr)" using le by simp
  then have "4 \<le> ?S" by (rule four_le_power)
  then have el: "\<forall>s \<in> set ?subs. Subnet.cidr s = newCidr \<and>
                Subnet.usableHosts s = ?S - 2 \<and> 2 \<le> Subnet.usableHosts s"
    using set_subnetsFrom [of _ "baseNetwork ip P" newCidr ?S "of_int ?a" n 0] by auto
  from g len el show ?thesis by blast
qed

text \<open>C9, for \<open>192.168.0.0/24\<close> split in 4: four subnets of prefix 26.\<close>

theorem C9_new_prefix_and_count_witness:
  "isValidIP ''192.168.0.0'' \<and>
   (\<exists>subs. generateSubnets ''192.168.0.0'' 24 4 = Inr subs \<and> int (length subs) = 4 \<and>
      (\<forall>s \<in> set subs. Subnet.cidr s = 26 \<and> Subnet.usableHosts s = 62 \<and>
                2 \<le> Subnet.usableHosts s))"
proof -
  have v: "isValidIP ''192.168.0.0''" by code_simp
  have "ceil_log2 4 = 2" by code_simp
  then have l: "\<lceil>log 2 (real_of_int 4)\<rceil> = 2"
    using ceil_log2_eq [of 4] by simp
  from C9_new_prefix_and_count [OF v, of 24 4] v show ?thesis
    unfolding l by simp
qed

text \<open>
  C10. The validator accepts octets spelled with leading zeros: \<open>010.0.0.1\<close> and
  \<open>192.168.001.010\<close> are valid, and neither is the text that \<open>intToIp\<close> produces for
  its value.
\<close>

theorem C10_leading_zeros_accepted:
  "isValidIP ''010.0.0.1'' \<and> intToIp (ipToInt ''010.0.0.1'') = ''10.0.0.1'' \<and>
   isValidIP ''192.168.001.010'' \<and> intToIp (ipToInt ''192.168.001.010'') = ''192.168.1.10''"
  by code_simp

end
